theory Spec2Isabelle
  imports Main "HOL-Library.Word"
begin

section \<open>Data model of btree/backfill.cc\<close>


definition BACKFILLING_MAX_PENDING_BLOCKS :: int where
  "BACKFILLING_MAX_PENDING_BLOCKS = 40000"

text \<open>
  The declarations of \<^verbatim>\<open>block_id_t\<close>, \<^verbatim>\<open>repli_timestamp\<close>, \<^verbatim>\<open>btree_superblock_t\<close>,
  \<^verbatim>\<open>SUPERBLOCK_ID\<close> and \<^verbatim>\<open>NULL_BLOCK_ID\<close> are included from headers outside the
  source. Block ids are a type parameter \<open>'b\<close>, the integer type of the field
  \<^verbatim>\<open>repli_timestamp::time\<close> is a type parameter \<open>'t\<close> with a linear order (the source
  only compares it with \<^verbatim>\<open>>=\<close>), and the two distinguished block ids are parameters of
  \<open>spawn_btree_backfill\<close>. A \<^verbatim>\<open>buf_t *\<close> is an address.
\<close>

type_synonym buf_ptr = nat

record 't repli_timestamp =
  time :: 't

record 'b btree_superblock_t =
  root_block :: 'b

text \<open>
  The slice stands for what the session reads through its cache: the payload of the
  superblock and, for each block id, the subtree recency the serializer keeps for it.
\<close>

record ('b, 't) btree_slice_t =
  superblock :: "'b btree_superblock_t"
  subtree_recency :: "'b \<Rightarrow> 't repli_timestamp"

text \<open>
  \<^verbatim>\<open>class backfill_state_t\<close>. The fields \<^verbatim>\<open>transactor\<close> and \<^verbatim>\<open>callback\<close> are handles
  that no function of the source calls a method of, apart from
  \<^verbatim>\<open>transactor->transaction()\<close> as an argument of the lock constructor; they are left
  out. \<^verbatim>\<open>num_pending_blocks\<close> is a C \<^verbatim>\<open>int\<close>: a 32-bit word read with \<open>sint\<close>.
\<close>

record ('b, 't) backfill_state_t =
  slice :: "('b, 't) btree_slice_t"
  since_when :: "'t repli_timestamp"
  shutdown_mode :: bool
  held_blocks :: "buf_ptr list list"
  num_pending_blocks :: "32 word"

text \<open>The constructor: no held blocks, nothing pending, not shutting down.\<close>

definition new_backfill_state ::
  "('b, 't) btree_slice_t \<Rightarrow> 't repli_timestamp \<Rightarrow> ('b, 't) backfill_state_t" where
  "new_backfill_state slice0 since_when0 =
     \<lparr>slice = slice0, since_when = since_when0, shutdown_mode = False,
      held_blocks = [], num_pending_blocks = 0\<rparr>"

section \<open>num_live\<close>

text \<open>
  \<^verbatim>\<open>
  int ret = 0;
  for (int i = 0, n = state.held_blocks.size(); i < n; ++i) {
      ret += state.held_blocks[i].size();
  }
  return ret + state.num_pending_blocks;
  \<close>
  \<^verbatim>\<open>i\<close>, \<^verbatim>\<open>n\<close> and \<^verbatim>\<open>ret\<close> are \<^verbatim>\<open>int\<close>: the two \<^verbatim>\<open>size()\<close> values are
  converted to 32 bits (\<open>word_of_nat\<close>), the comparison \<^verbatim>\<open>i < n\<close> is signed, and the
  additions wrap around.
\<close>

lemma sless_succ: "i <s n \<Longrightarrow> sint (i + 1) = sint i + 1" for i n :: "32 word"
proof -
  assume a: "i <s n"
  have "sint n < 2 ^ 31" using sint_lt [of n] by simp
  moreover have "- (2 ^ 31) \<le> sint i" using sint_ge [of i] by simp
  ultimately have r: "- (2 ^ 31) \<le> sint i + 1" "sint i + 1 < 2 ^ 31"
    using a by (simp_all add: word_sless_alt)
  have "sint (i + 1) = signed_take_bit 31 (sint i + 1)"
    by (simp add: sint_word_ariths)
  also have "\<dots> = sint i + 1"
    using r by (simp add: signed_take_bit_int_eq_self)
  finally show ?thesis .
qed

function num_live_loop ::
  "('b, 't) backfill_state_t \<Rightarrow> 32 word \<Rightarrow> 32 word \<Rightarrow> 32 word \<Rightarrow> 32 word" where
  "num_live_loop state i n ret =
     (if i <s n
      then num_live_loop state (i + 1) n
             (ret + word_of_nat (length (held_blocks state ! unat i)))
      else ret)"
  by pat_completeness auto
termination
  by (relation "measure (\<lambda>(state, i, n, ret). nat (sint n - sint i))")
     (simp_all add: sless_succ word_sless_alt)

definition num_live :: "('b, 't) backfill_state_t \<Rightarrow> 32 word" where
  "num_live state =
     (let n = word_of_nat (length (held_blocks state))
      in num_live_loop state 0 n 0 + num_pending_blocks state)"

text \<open>
  The specification's \<^verbatim>\<open>held_count\<close>, in its own words: the sum of the sizes of all
  per-level held lists.
\<close>

definition held_count :: "('b, 't) backfill_state_t \<Rightarrow> nat" where
  "held_count state = sum_list (map length (held_blocks state))"

section \<open>The traversal\<close>

text \<open>
  What a session does to the cache, the serializer and its condition variables is
  recorded as a trace, in program order. \<open>Acquire b\<close> is the constructor
  \<^verbatim>\<open>buf_lock_t(transaction, b, rwi_read)\<close>, \<open>Acquire_node b i\<close> the call
  \<^verbatim>\<open>acquire_node(buf_lock, state, b, &acquisition_conds[i])\<close>, \<open>Release b\<close> the release
  of a lock on block \<open>b\<close>, \<open>Get_recency_timestamps bs\<close> one request for the recencies of
  the blocks \<open>bs\<close>, and \<open>Pulse i\<close>, \<open>Wait i\<close> the calls \<^verbatim>\<open>acquisition_conds[i].pulse()\<close>
  and \<^verbatim>\<open>acquisition_conds[i].wait()\<close> returning.
\<close>

datatype 'b event =
    Acquire 'b
  | Acquire_node 'b nat
  | Release 'b
  | Get_recency_timestamps "'b list"
  | Pulse nat
  | Wait nat

text \<open>
  Modelled from the spec: the class \<^verbatim>\<open>buf_lock_t\<close> is declared outside the source. It
  is the scoped ownership handle of the specification, with guaranteed release on every
  exit path and exactly-once release: a lock object holds at most one block (\<open>None\<close>
  when it holds nothing, as after the default constructor).
\<close>

type_synonym 'b buf_lock_t = "'b option"

text \<open>
  Modelled from the spec: \<^verbatim>\<open>buf_lock_t::release()\<close>, defined outside the source, gives
  the block up. The source calls it once, on a lock that is held; on a lock that holds
  nothing there is no block to give up and the model records no event.
\<close>

definition buf_lock_release :: "'b buf_lock_t \<Rightarrow> 'b buf_lock_t \<times> 'b event list" where
  "buf_lock_release buf_lock =
     (case buf_lock of None \<Rightarrow> (None, []) | Some b \<Rightarrow> (None, [Release b]))"

text \<open>
  Modelled from the spec: the destructor of \<^verbatim>\<open>buf_lock_t\<close>, defined outside the source,
  runs where a local lock object goes out of scope and gives the block up if it is still
  held.
\<close>

definition buf_lock_destructor :: "'b buf_lock_t \<Rightarrow> 'b event list" where
  "buf_lock_destructor buf_lock = snd (buf_lock_release buf_lock)"

text \<open>
  Modelled from the spec: \<^verbatim>\<open>get_recency_timestamps\<close> is called by the source and
  defined outside it. It is the provider's \<^verbatim>\<open>batch_subtree_recency\<close>, which returns one
  recency timestamp per input id, in the same order.
\<close>

definition get_recency_timestamps ::
  "('b, 't) backfill_state_t \<Rightarrow> 'b list \<Rightarrow> 't repli_timestamp list" where
  "get_recency_timestamps state block_ids = map (subtree_recency (slice state)) block_ids"

text \<open>
  Modelled from the spec: \<^verbatim>\<open>acquire_node\<close> is called by the source and defined outside
  it. It is the provider's \<^verbatim>\<open>acquire_block\<close>, which suspends until the lock is
  granted: on return the lock object holds the block. The condition it is handed is
  activated on the way, as the source says where it declares the array (``Conds activated
  when we first try to acquire the children'').
\<close>

definition acquire_node ::
  "'b buf_lock_t \<Rightarrow> ('b, 't) backfill_state_t \<Rightarrow> 'b \<Rightarrow> nat \<Rightarrow> bool list
     \<Rightarrow> 'b buf_lock_t \<times> bool list \<times> 'b event list" where
  "acquire_node buf_lock state block_id i conds =
     (Some block_id, conds[i := True], [Acquire_node block_id i, Pulse i])"

text \<open>
  \<^verbatim>\<open>
  buf_lock_t buf_lock;
  acquire_node(buf_lock, state, block_id, acquisition_cond);
  \<close>
  and the end of the scope, where the local lock object is destroyed. The pointer
  \<^verbatim>\<open>acquisition_cond\<close> is the index \<open>i\<close> into the caller's array \<open>conds\<close>, in which
  \<open>True\<close> marks a pulsed condition.
\<close>

definition spawn_subtree_backfill ::
  "('b, 't) backfill_state_t \<Rightarrow> int \<Rightarrow> 'b \<Rightarrow> nat \<Rightarrow> bool list
     \<Rightarrow> bool list \<times> 'b event list" where
  "spawn_subtree_backfill state level block_id i conds =
     (let buf_lock = None;
          (buf_lock', conds', evs) = acquire_node buf_lock state block_id i conds
      in (conds', evs @ buf_lock_destructor buf_lock'))"

text \<open>
  The body of the first loop of \<^verbatim>\<open>subtrees_backfill\<close>, at index \<open>i\<close>:
  \<^verbatim>\<open>
  if (recencies[i].time >= state.since_when.time) {
      spawn_subtree_backfill(state, level, block_ids[i], &acquisition_conds[i]);
  } else {
      acquisition_conds[i].pulse();
  }
  \<close>
\<close>

definition spawn_step ::
  "('b, 't::linorder) backfill_state_t \<Rightarrow> int \<Rightarrow> 'b list \<Rightarrow> 't repli_timestamp list
     \<Rightarrow> nat \<Rightarrow> bool list \<Rightarrow> bool list \<times> 'b event list" where
  "spawn_step state level block_ids recencies i conds =
     (if time (recencies ! i) \<ge> time (since_when state)
      then spawn_subtree_backfill state level (block_ids ! i) i conds
      else (conds[i := True], [Pulse i]))"

text \<open>The loop itself, over the indices \<open>is\<close> still to visit.\<close>

primrec spawn_loop ::
  "('b, 't::linorder) backfill_state_t \<Rightarrow> int \<Rightarrow> 'b list \<Rightarrow> 't repli_timestamp list
     \<Rightarrow> nat list \<Rightarrow> bool list \<Rightarrow> bool list \<times> 'b event list" where
  "spawn_loop state level block_ids recencies [] conds = (conds, [])"
| "spawn_loop state level block_ids recencies (i # is) conds =
     (let (conds', evs) = spawn_step state level block_ids recencies i conds;
          (conds'', evs') = spawn_loop state level block_ids recencies is conds'
      in (conds'', evs @ evs'))"

text \<open>
  The second loop: \<^verbatim>\<open>acquisition_conds[i].wait()\<close> returns once the condition has been
  pulsed. The traversal is one task; a condition that nobody has pulsed when the task
  waits for it is never pulsed, and the task does not return: \<open>None\<close>.
\<close>

primrec wait_loop :: "bool list \<Rightarrow> nat list \<Rightarrow> 'b event list option" where
  "wait_loop conds [] = Some []"
| "wait_loop conds (i # is) =
     (if conds ! i
      then (case wait_loop conds is of None \<Rightarrow> None | Some evs \<Rightarrow> Some (Wait i # evs))
      else None)"

text \<open>
  \<^verbatim>\<open>subtrees_backfill(state, parent, level, block_ids, num_block_ids)\<close>. The pointer and
  the count are one list, \<^verbatim>\<open>num_block_ids\<close> being its length; both arrays the function
  allocates have that many cells, and a fresh \<^verbatim>\<open>cond_t\<close> is not pulsed. The result is
  the parent lock after the call and the trace.
\<close>

definition subtrees_backfill ::
  "('b, 't::linorder) backfill_state_t \<Rightarrow> 'b buf_lock_t \<Rightarrow> int \<Rightarrow> 'b list
     \<Rightarrow> ('b buf_lock_t \<times> 'b event list) option" where
  "subtrees_backfill state parent level block_ids =
     (let num_block_ids = length block_ids;
          recencies = get_recency_timestamps state block_ids;
          acquisition_conds = replicate num_block_ids False;
          (conds, evs1) =
             spawn_loop state level block_ids recencies [0..<num_block_ids] acquisition_conds
      in case wait_loop conds [0..<num_block_ids] of
           None \<Rightarrow> None
         | Some evs2 \<Rightarrow>
             (let (parent', evs3) = buf_lock_release parent
              in Some (parent', [Get_recency_timestamps block_ids] @ evs1 @ evs2 @ evs3)))"

text \<open>
  How a session ends. \<^verbatim>\<open>rassert\<close> is the debug assertion of the code base: where its
  condition is false the process is aborted on the spot, with the trace so far.
\<close>

datatype 'b outcome =
    Returned "'b event list"
  | Assertion_failed "'b event list"
  | Suspended "'b event list"

text \<open>
  \<^verbatim>\<open>spawn_btree_backfill(slice, since_when, callback)\<close>; the callback is never invoked by
  the source and is left out. The lock on the superblock is a local object: it is
  destroyed when the function returns.
\<close>

definition spawn_btree_backfill ::
  "'b \<Rightarrow> 'b \<Rightarrow> ('b, 't::linorder) btree_slice_t \<Rightarrow> 't repli_timestamp \<Rightarrow> 'b outcome" where
  "spawn_btree_backfill SUPERBLOCK_ID NULL_BLOCK_ID slice0 since_when0 =
     (let state = new_backfill_state slice0 since_when0;
          buf_lock = Some SUPERBLOCK_ID;
          evs0 = [Acquire SUPERBLOCK_ID];
          root_id = root_block (superblock (slice state))
      in if \<not> (root_id \<noteq> SUPERBLOCK_ID) then Assertion_failed evs0
         else if root_id = NULL_BLOCK_ID then Returned (evs0 @ buf_lock_destructor buf_lock)
         else (case subtrees_backfill state buf_lock 0 [root_id] of
                 None \<Rightarrow> Suspended evs0
               | Some (buf_lock', evs) \<Rightarrow>
                   Returned (evs0 @ evs @ buf_lock_destructor buf_lock')))"

text \<open>Reading a trace: the blocks acquired and the blocks released, in order.\<close>

fun acquired_block :: "'b event \<Rightarrow> 'b list" where
  "acquired_block (Acquire b) = [b]"
| "acquired_block (Acquire_node b i) = [b]"
| "acquired_block _ = []"

fun released_block :: "'b event \<Rightarrow> 'b list" where
  "released_block (Release b) = [b]"
| "released_block _ = []"

definition acquisitions :: "'b event list \<Rightarrow> 'b list" where
  "acquisitions evs = concat (map acquired_block evs)"

definition releases :: "'b event list \<Rightarrow> 'b list" where
  "releases evs = concat (map released_block evs)"

text \<open>
  The lock discipline, checked along a trace from the list of blocks held at its start:
  an acquisition adds the block, a release takes one holding of the block away and is
  refused (\<open>None\<close>) where the block is not held. The result is what is still held at
  the end.
\<close>

fun held_after :: "'b event list \<Rightarrow> 'b list \<Rightarrow> 'b list option" where
  "held_after [] held = Some held"
| "held_after (Acquire b # evs) held = held_after evs (b # held)"
| "held_after (Acquire_node b i # evs) held = held_after evs (b # held)"
| "held_after (Release b # evs) held =
     (if b \<in> set held then held_after evs (remove1 b held) else None)"
| "held_after (e # evs) held = held_after evs held"

text \<open>The requests for recencies in a trace.\<close>

fun is_recency_request :: "'b event \<Rightarrow> bool" where
  "is_recency_request (Get_recency_timestamps bs) = True"
| "is_recency_request _ = False"

text \<open>
  \<open>precedes a b evs\<close>: the event \<open>a\<close> occurs in the trace before the first occurrence of
  \<open>b\<close>.
\<close>

definition precedes :: "'a \<Rightarrow> 'a \<Rightarrow> 'a list \<Rightarrow> bool" where
  "precedes a b evs = (a \<in> set (takeWhile (\<lambda>e. e \<noteq> b) evs))"

section \<open>The call, statement by statement\<close>

text \<open>
  When the parent's lock is given up, relative to the conditions, is a matter of the
  order of steps inside one call of \<^verbatim>\<open>subtrees_backfill\<close>, and of when the conditions
  handed to \<^verbatim>\<open>acquire_node\<close> are pulsed, which the source does not say. The call is
  therefore also given as a machine that runs one statement at a time. Its position is in
  the first loop at index \<open>i\<close>, in the second loop at index \<open>i\<close>, or past
  \<^verbatim>\<open>parent.release()\<close>.
\<close>

datatype pc = Spawning nat | Waiting nat | Finished

text \<open>
  The locals of the call: the array \<^verbatim>\<open>recencies\<close>, the array \<^verbatim>\<open>acquisition_conds\<close>
  (\<open>True\<close> marks a pulsed condition), for each child whether its condition has been handed
  to \<^verbatim>\<open>acquire_node\<close> (its acquisition has been issued), and the parent's lock.
\<close>

record ('b, 't) task =
  task_pc :: pc
  task_recencies :: "'t repli_timestamp list"
  task_conds :: "bool list"
  task_issued :: "bool list"
  task_parent :: "'b buf_lock_t"

text \<open>
  \<open>Run\<close> is the task executing its next statement. \<open>Signal i\<close> is a pulse of condition
  \<open>i\<close> by \<^verbatim>\<open>acquire_node\<close> or by whatever it passed the condition to; nothing is assumed
  about when it happens, or whether it does.
\<close>

datatype action = Run | Signal nat

text \<open>
  The state after \<^verbatim>\<open>get_recency_timestamps\<close> has filled \<^verbatim>\<open>recencies\<close> and the array of
  fresh conditions has been allocated.
\<close>

definition task_start ::
  "('b, 't) backfill_state_t \<Rightarrow> 'b buf_lock_t \<Rightarrow> 'b list \<Rightarrow> ('b, 't) task" where
  "task_start state parent block_ids =
     \<lparr>task_pc = Spawning 0,
      task_recencies = get_recency_timestamps state block_ids,
      task_conds = replicate (length block_ids) False,
      task_issued = replicate (length block_ids) False,
      task_parent = parent\<rparr>"

text \<open>
  One step. In the first loop at \<open>i\<close>: the test \<^verbatim>\<open>recencies[i].time >= state.since_when.time\<close>,
  then either the call of \<^verbatim>\<open>spawn_subtree_backfill\<close>, which hands condition \<open>i\<close> to
  \<^verbatim>\<open>acquire_node\<close>, or \<^verbatim>\<open>acquisition_conds[i].pulse()\<close>. In the second loop at \<open>i\<close>:
  \<^verbatim>\<open>acquisition_conds[i].wait()\<close>, which cannot return (\<open>None\<close>) while the condition is
  not pulsed. After the second loop: \<^verbatim>\<open>parent.release()\<close>. A condition can be signalled
  from outside only once it has been handed out.
\<close>

fun task_step ::
  "('b, 't::linorder) backfill_state_t \<Rightarrow> 'b list \<Rightarrow> action \<Rightarrow> ('b, 't) task
     \<Rightarrow> ('b, 't) task option" where
  "task_step state block_ids Run t =
     (case task_pc t of
        Spawning i \<Rightarrow>
          (if i < length block_ids
           then (if time (task_recencies t ! i) \<ge> time (since_when state)
                 then Some (t\<lparr>task_issued := (task_issued t)[i := True],
                              task_pc := Spawning (i + 1)\<rparr>)
                 else Some (t\<lparr>task_conds := (task_conds t)[i := True],
                              task_pc := Spawning (i + 1)\<rparr>))
           else Some (t\<lparr>task_pc := Waiting 0\<rparr>))
      | Waiting i \<Rightarrow>
          (if i < length block_ids
           then (if task_conds t ! i then Some (t\<lparr>task_pc := Waiting (i + 1)\<rparr>) else None)
           else Some (t\<lparr>task_parent := fst (buf_lock_release (task_parent t)),
                        task_pc := Finished\<rparr>))
      | Finished \<Rightarrow> None)"
| "task_step state block_ids (Signal i) t =
     (if i < length block_ids \<and> task_issued t ! i
      then Some (t\<lparr>task_conds := (task_conds t)[i := True]\<rparr>)
      else None)"

text \<open>A run: the steps of a schedule one after the other, \<open>None\<close> where one is refused.\<close>

fun task_run ::
  "('b, 't::linorder) backfill_state_t \<Rightarrow> 'b list \<Rightarrow> action list \<Rightarrow> ('b, 't) task
     \<Rightarrow> ('b, 't) task option" where
  "task_run state block_ids [] t = Some t"
| "task_run state block_ids (a # as) t =
     (case task_step state block_ids a t of
        None \<Rightarrow> None
      | Some t' \<Rightarrow> task_run state block_ids as t')"

text \<open>
  The schedule in which every condition handed to \<^verbatim>\<open>acquire_node\<close> is pulsed before
  \<^verbatim>\<open>acquire_node\<close> returns, for the first \<open>k\<close> children.
\<close>

definition sync_schedule ::
  "('b, 't::linorder) backfill_state_t \<Rightarrow> 'b list \<Rightarrow> nat \<Rightarrow> action list" where
  "sync_schedule state block_ids k =
     concat (map (\<lambda>i. if time (subtree_recency (slice state) (block_ids ! i))
                            \<ge> time (since_when state)
                       then [Run, Signal i] else [Run]) [0..<k])"

text \<open>What holds at each position of the call, for a parent lock on block \<open>p\<close>.\<close>

definition task_inv ::
  "('b, 't::linorder) backfill_state_t \<Rightarrow> 'b \<Rightarrow> 'b list \<Rightarrow> ('b, 't) task \<Rightarrow> bool" where
  "task_inv state p block_ids t =
     (let n = length block_ids;
          recent = (\<lambda>j. time (since_when state) \<le> time (subtree_recency (slice state) (block_ids ! j)))
      in task_recencies t = get_recency_timestamps state block_ids \<and>
         length (task_conds t) = n \<and> length (task_issued t) = n \<and>
         (case task_pc t of
            Spawning i \<Rightarrow> i \<le> n \<and> task_parent t = Some p \<and>
               (\<forall>j<i. recent j \<longrightarrow> task_issued t ! j)
          | Waiting i \<Rightarrow> i \<le> n \<and> task_parent t = Some p \<and>
               (\<forall>j<n. recent j \<longrightarrow> task_issued t ! j) \<and> (\<forall>j<i. task_conds t ! j)
          | Finished \<Rightarrow>
               (\<forall>j<n. recent j \<longrightarrow> task_issued t ! j) \<and> (\<forall>j<n. task_conds t ! j)))"

section \<open>What a call of subtrees_backfill does\<close>

text \<open>
  The trace of one call, in closed form: the request for the recencies, the events of
  each child in the order of the list, the waits, the release of the parent.
\<close>

lemma spawn_subtree_backfill_eq:
  "spawn_subtree_backfill state level b i conds =
     (conds[i := True], [Acquire_node b i, Pulse i, Release b])"
  by (simp add: spawn_subtree_backfill_def acquire_node_def buf_lock_destructor_def
      buf_lock_release_def)

lemma spawn_step_eq:
  "spawn_step state level block_ids recencies i conds =
     (conds[i := True],
      if time (since_when state) \<le> time (recencies ! i)
      then [Acquire_node (block_ids ! i) i, Pulse i, Release (block_ids ! i)]
      else [Pulse i])"
  by (simp add: spawn_step_def spawn_subtree_backfill_eq)

lemma spawn_loop_events:
  "snd (spawn_loop state level block_ids recencies is conds) =
     concat (map (\<lambda>i. snd (spawn_step state level block_ids recencies i [])) is)"
  by (induction "is" arbitrary: conds) (simp_all add: spawn_step_eq case_prod_beta)

lemma spawn_loop_conds:
  "j < length conds \<Longrightarrow>
     fst (spawn_loop state level block_ids recencies is conds) ! j = (conds ! j \<or> j \<in> set is)"
proof (induction "is" arbitrary: conds)
  case Nil
  then show ?case by simp
next
  case (Cons a "is")
  have "conds[a := True] ! j = (conds ! j \<or> j = a)"
    using Cons.prems by (cases "j = a") simp_all
  then show ?case
    using Cons.IH [of "conds[a := True]"] Cons.prems
    by (auto simp add: spawn_step_eq case_prod_beta)
qed

lemma wait_loop_Some:
  "(\<forall>i \<in> set is. conds ! i) \<Longrightarrow> wait_loop conds is = Some (map Wait is)"
  by (induction "is") simp_all

lemma wait_loop_SomeD:
  "wait_loop conds is = Some evs \<Longrightarrow> (\<forall>i \<in> set is. conds ! i) \<and> evs = map Wait is"
  by (induction "is" arbitrary: evs) (auto split: if_splits option.splits)

lemma subtrees_backfill_eq:
  fixes block_ids :: "'b list"
  shows "subtrees_backfill state parent level block_ids =
     Some (fst (buf_lock_release parent),
           [Get_recency_timestamps block_ids]
           @ concat (map (\<lambda>i. snd (spawn_step state level block_ids
                        (get_recency_timestamps state block_ids) i [])) [0..<length block_ids])
           @ map Wait [0..<length block_ids]
           @ snd (buf_lock_release parent))"
proof -
  let ?n = "length block_ids"
  let ?r = "spawn_loop state level block_ids (get_recency_timestamps state block_ids)
              [0..<?n] (replicate ?n False)"
  have "\<forall>i \<in> set [0..<?n]. fst ?r ! i"
    by (simp add: spawn_loop_conds)
  then have "wait_loop (fst ?r) [0..<?n] = Some (map Wait [0..<?n] :: 'b event list)"
    by (rule wait_loop_Some)
  moreover have "snd ?r = concat (map (\<lambda>i. snd (spawn_step state level block_ids
                        (get_recency_timestamps state block_ids) i [])) [0..<?n])"
    by (rule spawn_loop_events)
  ultimately show ?thesis
    unfolding subtrees_backfill_def Let_def case_prod_beta by simp
qed

lemma acquisitions_append: "acquisitions (xs @ ys) = acquisitions xs @ acquisitions ys"
  by (simp add: acquisitions_def)

lemma acquisitions_Cons: "acquisitions (e # evs) = acquired_block e @ acquisitions evs"
  by (simp add: acquisitions_def)

lemma acquisitions_Nil: "acquisitions [] = []"
  by (simp add: acquisitions_def)

lemma acquisitions_map_Wait: "acquisitions (map Wait is) = []"
  by (induction "is") (simp_all add: acquisitions_Nil acquisitions_Cons)

lemma acquisitions_concat: "acquisitions (concat xss) = concat (map acquisitions xss)"
  by (induction xss) (simp_all add: acquisitions_Nil acquisitions_append)

lemma concat_map_nth:
  "concat (map (\<lambda>i. f (xs ! i)) [0..<length xs]) = concat (map f xs)"
proof -
  have "map (\<lambda>i. f (xs ! i)) [0..<length xs] = map f (map (\<lambda>i. xs ! i) [0..<length xs])"
    by simp
  then show ?thesis by (simp only: map_nth)
qed

lemma concat_map_if_filter: "concat (map (\<lambda>x. if P x then [x] else []) xs) = filter P xs"
  by (induction xs) simp_all

lemma spawn_phase_acquisitions:
  "acquisitions (concat (map (\<lambda>i. snd (spawn_step state level block_ids
        (get_recency_timestamps state block_ids) i [])) [0..<length block_ids]))
   = filter (\<lambda>b. time (since_when state) \<le> time (subtree_recency (slice state) b)) block_ids"
proof -
  let ?P = "\<lambda>b. time (since_when state) \<le> time (subtree_recency (slice state) b)"
  have "acquisitions (concat (map (\<lambda>i. snd (spawn_step state level block_ids
        (get_recency_timestamps state block_ids) i [])) [0..<length block_ids]))
     = concat (map (\<lambda>i. acquisitions (snd (spawn_step state level block_ids
        (get_recency_timestamps state block_ids) i []))) [0..<length block_ids])"
    by (simp add: acquisitions_concat comp_def)
  also have "\<dots> = concat (map (\<lambda>i. (\<lambda>b. if ?P b then [b] else []) (block_ids ! i)) [0..<length block_ids])"
    by (rule arg_cong [where f = concat], rule map_cong)
       (simp_all add: spawn_step_eq get_recency_timestamps_def acquisitions_def)
  also have "\<dots> = concat (map (\<lambda>b. if ?P b then [b] else []) block_ids)"
    by (rule concat_map_nth)
  also have "\<dots> = filter ?P block_ids"
    by (rule concat_map_if_filter)
  finally show ?thesis .
qed

lemma subtrees_backfill_acquisitions:
  assumes "subtrees_backfill state parent level block_ids = Some (parent', evs)"
  shows "acquisitions evs =
     filter (\<lambda>b. time (since_when state) \<le> time (subtree_recency (slice state) b)) block_ids"
proof -
  have "acquisitions (snd (buf_lock_release parent)) = []"
    by (simp add: buf_lock_release_def acquisitions_def split: option.splits)
  then show ?thesis
    using assms spawn_phase_acquisitions [of state level block_ids]
    unfolding subtrees_backfill_eq
    by (auto simp add: acquisitions_append acquisitions_Cons acquisitions_map_Wait)
qed

lemma takeWhile_before_waits:
  assumes "0 < n" and "Wait 0 \<notin> set xs"
  shows "takeWhile (\<lambda>e. e \<noteq> Wait 0) (xs @ map Wait [0..<n] @ ys) = xs"
proof -
  have "[0..<n] = 0 # [1..<n]" using assms(1) by (simp add: upt_conv_Cons)
  then have "takeWhile (\<lambda>e. e \<noteq> Wait 0) (map Wait [0..<n] @ ys) = ([] :: 'a event list)"
    by simp
  moreover have "\<forall>x \<in> set xs. x \<noteq> Wait 0" using assms(2) by auto
  ultimately show ?thesis by (simp add: takeWhile_append2)
qed

lemma subtrees_backfill_before_waits:
  fixes block_ids :: "'b list"
  assumes "subtrees_backfill state parent level block_ids = Some (parent', evs)"
    and "0 < length block_ids"
  shows "takeWhile (\<lambda>e. e \<noteq> Wait 0) evs =
           [Get_recency_timestamps block_ids]
           @ concat (map (\<lambda>i. snd (spawn_step state level block_ids
                        (get_recency_timestamps state block_ids) i [])) [0..<length block_ids])"
proof -
  let ?xs = "[Get_recency_timestamps block_ids]
           @ concat (map (\<lambda>i. snd (spawn_step state level block_ids
                        (get_recency_timestamps state block_ids) i [])) [0..<length block_ids])"
  have evs: "evs = ?xs @ map Wait [0..<length block_ids] @ snd (buf_lock_release parent)"
    using assms(1) unfolding subtrees_backfill_eq by simp
  have "Wait 0 \<notin> set ?xs"
    by (simp add: spawn_step_eq)
  then show ?thesis
    unfolding evs using assms(2) by (rule takeWhile_before_waits [rotated])
qed

section \<open>Recency pruning\<close>

text \<open>
  C1. For every child \<open>i\<close> of a parent's list, \<^verbatim>\<open>subtrees_backfill\<close> returns, and
  in its trace: if the child's subtree recency is at or after \<^verbatim>\<open>since_when\<close>, the
  acquisition of the child's block has been issued with the child's condition; otherwise
  the child's condition has been pulsed, in the first loop and so before the call waits
  for any condition, no acquisition carries the child's condition, and the child's block
  is not among the blocks acquired.
\<close>

theorem recent_children_spawned_others_pruned:
  fixes state :: "('b, 't::linorder) backfill_state_t"
  assumes "i < length block_ids"
  shows "\<exists>parent' evs. subtrees_backfill state parent level block_ids = Some (parent', evs) \<and>
     (if time (subtree_recency (slice state) (block_ids ! i)) \<ge> time (since_when state)
      then Acquire_node (block_ids ! i) i \<in> set evs
      else Pulse i \<in> set evs \<and> precedes (Pulse i) (Wait 0) evs
           \<and> (\<forall>b. Acquire_node b i \<notin> set evs)
           \<and> block_ids ! i \<notin> set (acquisitions evs))"
proof -
  obtain parent' evs where r: "subtrees_backfill state parent level block_ids = Some (parent', evs)"
    by (simp add: subtrees_backfill_eq)
  let ?step = "\<lambda>i. snd (spawn_step state level block_ids
                        (get_recency_timestamps state block_ids) i [])"
  have evs: "evs = [Get_recency_timestamps block_ids] @ concat (map ?step [0..<length block_ids])
           @ map Wait [0..<length block_ids] @ snd (buf_lock_release parent)"
    using r unfolding subtrees_backfill_eq by simp
  have rec: "get_recency_timestamps state block_ids ! i = subtree_recency (slice state) (block_ids ! i)"
    using assms by (simp add: get_recency_timestamps_def)
  have in_step: "set (?step i) \<subseteq> set evs"
    using assms unfolding evs by auto
  have other: "Acquire_node b i \<in> set evs \<Longrightarrow> Acquire_node b i \<in> set (?step i)" for b
    unfolding evs by (auto simp add: spawn_step_eq buf_lock_release_def split: if_splits option.splits)
  show ?thesis
  proof (cases "time (subtree_recency (slice state) (block_ids ! i)) \<ge> time (since_when state)")
    case True
    then have "Acquire_node (block_ids ! i) i \<in> set (?step i)"
      by (simp add: spawn_step_eq rec)
    then show ?thesis using in_step r True by auto
  next
    case False
    then have s: "?step i = [Pulse i]"
      by (simp add: spawn_step_eq rec)
    have "block_ids ! i \<notin> set (acquisitions evs)"
      using False subtrees_backfill_acquisitions [OF r] by simp
    moreover have "Pulse i \<in> set evs" using in_step s by simp
    moreover have "precedes (Pulse i) (Wait 0) evs"
    proof -
      have "0 < length block_ids" using assms by (cases block_ids) simp_all
      then have t: "takeWhile (\<lambda>e. e \<noteq> Wait 0) evs =
           [Get_recency_timestamps block_ids] @ concat (map ?step [0..<length block_ids])"
        by (rule subtrees_backfill_before_waits [OF r])
      have "Pulse i \<in> set (?step i)" using s by simp
      then have "Pulse i \<in> set (concat (map ?step [0..<length block_ids]))"
        using assms by auto
      then show ?thesis
        unfolding precedes_def t by simp
    qed
    moreover have "\<forall>b. Acquire_node b i \<notin> set evs" using other s by auto
    ultimately show ?thesis using r False by simp
  qed
qed

theorem recent_children_spawned_others_pruned_witness:
  "(1::nat) < length [1, 2::nat] \<and>
   (\<exists>parent' evs.
      subtrees_backfill
        \<lparr>slice = \<lparr>superblock = \<lparr>root_block = 1::nat\<rparr>,
                  subtree_recency = (\<lambda>b. \<lparr>time = (if b = 1 then 10 else 5::nat)\<rparr>)\<rparr>,
         since_when = \<lparr>time = 8\<rparr>, shutdown_mode = False, held_blocks = [],
         num_pending_blocks = 0\<rparr> (Some 0) 0 [1, 2] = Some (parent', evs) \<and>
      Pulse 1 \<in> set evs \<and> precedes (Pulse 1) (Wait 0) evs \<and>
      (\<forall>b. Acquire_node b 1 \<notin> set evs) \<and> 2 \<notin> set (acquisitions evs))"
  using recent_children_spawned_others_pruned
    [of 1 "[1, 2::nat]"
        "\<lparr>slice = \<lparr>superblock = \<lparr>root_block = 1::nat\<rparr>,
                  subtree_recency = (\<lambda>b. \<lparr>time = (if b = 1 then 10 else 5::nat)\<rparr>)\<rparr>,
         since_when = \<lparr>time = 8\<rparr>, shutdown_mode = False, held_blocks = [],
         num_pending_blocks = 0\<rparr>" "Some 0" 0]
  by simp

section \<open>The tracker's count\<close>

lemma sint_of_nat_small:
  "k < 2 ^ 31 \<Longrightarrow> sint (word_of_nat k :: 32 word) = int k"
proof -
  assume a: "k < 2 ^ 31"
  have "sint (word_of_nat k :: 32 word) = signed_take_bit 31 (int k)"
    using sint_sbintrunc' [of "int k", where 'a = 32] by simp
  also have "\<dots> = int k"
    using a by (simp add: signed_take_bit_int_eq_self)
  finally show ?thesis .
qed

lemma unat_of_nat_small:
  "k < 2 ^ 31 \<Longrightarrow> unat (word_of_nat k :: 32 word) = k"
  by (simp add: unat_of_nat)

lemma num_live_loop_sum:
  fixes state :: "('b, 't) backfill_state_t"
  assumes "length (held_blocks state) < 2 ^ 31" and "k \<le> length (held_blocks state)"
  shows "num_live_loop state (word_of_nat k) (word_of_nat (length (held_blocks state))) ret =
           ret + word_of_nat (sum_list (map length (drop k (held_blocks state))))"
  using assms(2)
proof (induction "length (held_blocks state) - k" arbitrary: k ret)
  case 0
  then have k: "k = length (held_blocks state)" by simp
  show ?case
    by (subst num_live_loop.simps) (simp add: k word_sless_alt)
next
  case (Suc d)
  let ?N = "length (held_blocks state)"
  from Suc have lt: "k < ?N" by simp
  then have k31: "k < 2 ^ 31" using assms(1) by simp
  have less: "(word_of_nat k :: 32 word) <s word_of_nat ?N"
    using lt k31 assms(1) by (simp add: word_sless_alt sint_of_nat_small)
  have step: "word_of_nat k + 1 = (word_of_nat (Suc k) :: 32 word)" by simp
  have d: "d = ?N - Suc k" using Suc(2) by simp
  have drop: "drop k (held_blocks state) = held_blocks state ! k # drop (Suc k) (held_blocks state)"
    using lt by (simp add: Cons_nth_drop_Suc)
  have "num_live_loop state (word_of_nat k) (word_of_nat ?N) ret =
        num_live_loop state (word_of_nat (Suc k)) (word_of_nat ?N)
          (ret + word_of_nat (length (held_blocks state ! k)))"
    by (subst num_live_loop.simps) (simp add: less step unat_of_nat_small [OF k31] del: of_nat_Suc)
  also have "\<dots> = ret + word_of_nat (length (held_blocks state ! k))
        + word_of_nat (sum_list (map length (drop (Suc k) (held_blocks state))))"
    using Suc(1) [OF d] lt by simp
  also have "\<dots> = ret + word_of_nat (sum_list (map length (drop k (held_blocks state))))"
    by (simp add: drop)
  finally show ?case .
qed

lemma num_live_eq:
  fixes state :: "('b, 't) backfill_state_t"
  assumes "length (held_blocks state) < 2 ^ 31"
  shows "num_live state = word_of_nat (held_count state) + num_pending_blocks state"
  using num_live_loop_sum [OF assms, of 0 0]
  by (simp add: num_live_def held_count_def)

text \<open>
  C9, as amended. For every state with fewer than \<open>2 ^ 31\<close> levels whose
  \<^verbatim>\<open>held_count + pending_count\<close> is an \<^verbatim>\<open>int\<close> (from \<open>- 2 ^ 31\<close> up to \<open>2 ^ 31 - 1\<close>),
  \<^verbatim>\<open>num_live\<close> returns \<^verbatim>\<open>held_count + pending_count\<close>, where \<^verbatim>\<open>held_count\<close> is the sum of
  the sizes of the per-level lists.
\<close>

theorem num_live_is_held_plus_pending:
  fixes state :: "('b, 't) backfill_state_t"
  assumes "length (held_blocks state) < 2 ^ 31"
    and "- (2 ^ 31) \<le> int (held_count state) + sint (num_pending_blocks state)"
    and "int (held_count state) + sint (num_pending_blocks state) < 2 ^ 31"
  shows "sint (num_live state) = int (held_count state) + sint (num_pending_blocks state)"
proof -
  have "num_live state = word_of_int (int (held_count state) + sint (num_pending_blocks state))"
    by (simp add: num_live_eq [OF assms(1)])
  then have "sint (num_live state) =
      signed_take_bit 31 (int (held_count state) + sint (num_pending_blocks state))"
    by (simp only: sint_sbintrunc') simp
  then show ?thesis
    using assms(2,3) by (simp add: signed_take_bit_int_eq_self)
qed

theorem num_live_is_held_plus_pending_witness:
  "length [[1, 2], [3::nat]] < 2 ^ 31 \<and>
   sint (num_live
       \<lparr>slice = \<lparr>superblock = \<lparr>root_block = 1::nat\<rparr>,
                 subtree_recency = (\<lambda>b. \<lparr>time = 0::nat\<rparr>)\<rparr>,
        since_when = \<lparr>time = 0\<rparr>, shutdown_mode = False,
        held_blocks = [[1, 2], [3]], num_pending_blocks = 4\<rparr>) = 7"
  using num_live_is_held_plus_pending
    [of "\<lparr>slice = \<lparr>superblock = \<lparr>root_block = 1::nat\<rparr>,
                 subtree_recency = (\<lambda>b. \<lparr>time = 0::nat\<rparr>)\<rparr>,
        since_when = \<lparr>time = 0\<rparr>, shutdown_mode = False,
        held_blocks = [[1, 2], [3]], num_pending_blocks = 4\<rparr>"]
  by (simp add: held_count_def)

text \<open>
  C9 as stated fails where the count does not fit an \<^verbatim>\<open>int\<close>, which the source waves
  aside (``8 petabytes of RAM should be enough for backfilling''): with \<open>2 ^ 31\<close> blocks
  held at one level and none pending, \<^verbatim>\<open>num_live\<close> returns \<open>- 2 ^ 31\<close>.
\<close>

theorem num_live_overflow_counterexample:
  "sint (num_live
       \<lparr>slice = \<lparr>superblock = \<lparr>root_block = 1::nat\<rparr>,
                 subtree_recency = (\<lambda>b. \<lparr>time = 0::nat\<rparr>)\<rparr>,
        since_when = \<lparr>time = 0\<rparr>, shutdown_mode = False,
        held_blocks = [replicate 2147483648 0], num_pending_blocks = 0\<rparr>) = - 2147483648 \<and>
   int (held_count
       \<lparr>slice = \<lparr>superblock = \<lparr>root_block = 1::nat\<rparr>,
                 subtree_recency = (\<lambda>b. \<lparr>time = 0::nat\<rparr>)\<rparr>,
        since_when = \<lparr>time = 0\<rparr>, shutdown_mode = False,
        held_blocks = [replicate 2147483648 0], num_pending_blocks = 0\<rparr>)
   + sint (num_pending_blocks
       \<lparr>slice = \<lparr>superblock = \<lparr>root_block = 1::nat\<rparr>,
                 subtree_recency = (\<lambda>b. \<lparr>time = 0::nat\<rparr>)\<rparr>,
        since_when = \<lparr>time = 0\<rparr>, shutdown_mode = False,
        held_blocks = [replicate 2147483648 0], num_pending_blocks = 0\<rparr>) = 2147483648"
  by (simp add: num_live_eq held_count_def)

section \<open>Release of the parent\<close>

text \<open>
  In the trace of a call on a held parent lock, the release of the parent comes last,
  after the waits.
\<close>

lemma subtrees_backfill_release_last:
  fixes state :: "('b, 't::linorder) backfill_state_t"
  shows "\<exists>spawned.
     subtrees_backfill state (Some p) level block_ids =
       Some (None, spawned @ map Wait [0..<length block_ids] @ [Release p]) \<and>
     (\<forall>i < length block_ids.
        Pulse i \<in> set spawned \<and>
        (time (subtree_recency (slice state) (block_ids ! i)) \<ge> time (since_when state)
           \<longrightarrow> Acquire_node (block_ids ! i) i \<in> set spawned))"
proof -
  let ?step = "\<lambda>i. snd (spawn_step state level block_ids
                        (get_recency_timestamps state block_ids) i [])"
  let ?spawned = "[Get_recency_timestamps block_ids] @ concat (map ?step [0..<length block_ids])"
  have eq: "subtrees_backfill state (Some p) level block_ids =
       Some (None, ?spawned @ map Wait [0..<length block_ids] @ [Release p])"
    by (simp add: subtrees_backfill_eq buf_lock_release_def)
  have "Pulse i \<in> set ?spawned \<and>
        (time (subtree_recency (slice state) (block_ids ! i)) \<ge> time (since_when state)
           \<longrightarrow> Acquire_node (block_ids ! i) i \<in> set ?spawned)"
    if "i < length block_ids" for i
  proof -
    have "set (?step i) \<subseteq> set ?spawned" using that by auto
    moreover have "Pulse i \<in> set (?step i)" by (simp add: spawn_step_eq)
    moreover have "time (subtree_recency (slice state) (block_ids ! i)) \<ge> time (since_when state)
           \<Longrightarrow> Acquire_node (block_ids ! i) i \<in> set (?step i)"
      using that by (simp add: spawn_step_eq get_recency_timestamps_def)
    ultimately show ?thesis by blast
  qed
  with eq show ?thesis by blast
qed

text \<open>The position of the call decides what has been done so far.\<close>

lemma task_inv_start: "task_inv state p block_ids (task_start state (Some p) block_ids)"
  by (simp add: task_inv_def task_start_def)

lemma task_inv_step:
  assumes "task_inv state p block_ids t" and "task_step state block_ids a t = Some t'"
  shows "task_inv state p block_ids t'"
proof (cases a)
  case Run
  show ?thesis
  proof (cases "task_pc t")
    case (Spawning i)
    with assms Run show ?thesis
      by (auto simp add: task_inv_def Let_def get_recency_timestamps_def nth_list_update
          less_Suc_eq split: if_splits)
  next
    case (Waiting i)
    with assms Run show ?thesis
      by (auto simp add: task_inv_def Let_def buf_lock_release_def less_Suc_eq
          split: if_splits)
  next
    case Finished
    with assms Run show ?thesis by simp
  qed
next
  case (Signal i)
  with assms show ?thesis
    by (cases "task_pc t")
       (auto simp add: task_inv_def Let_def nth_list_update split: if_splits)
qed

lemma task_inv_run:
  assumes "task_inv state p block_ids t" and "task_run state block_ids schedule t = Some t'"
  shows "task_inv state p block_ids t'"
  using assms
proof (induction schedule arbitrary: t)
  case Nil
  then show ?case by simp
next
  case (Cons a schedule)
  then show ?case
    by (auto split: option.splits intro: task_inv_step)
qed

text \<open>
  C2. In every run of a call of \<^verbatim>\<open>subtrees_backfill\<close> on a held parent lock, whatever
  the moments at which the conditions handed to \<^verbatim>\<open>acquire_node\<close> are pulsed: in every
  state of the run in which the parent's lock has been given up, the condition of every
  child of the list has been pulsed, and every child that is not pruned has had its
  acquisition issued. So the parent's lock is never released before that.
\<close>

theorem parent_released_only_after_children_signalled:
  fixes state :: "('b, 't::linorder) backfill_state_t"
  assumes "task_run state block_ids schedule (task_start state (Some p) block_ids) = Some t"
    and "task_parent t = None"
  shows "\<forall>i < length block_ids.
           task_conds t ! i \<and>
           (time (subtree_recency (slice state) (block_ids ! i)) \<ge> time (since_when state)
              \<longrightarrow> task_issued t ! i)"
proof -
  have inv: "task_inv state p block_ids t"
    using task_inv_start assms(1) by (rule task_inv_run)
  show ?thesis
  proof (cases "task_pc t")
    case (Spawning i)
    with inv assms(2) show ?thesis by (simp add: task_inv_def Let_def)
  next
    case (Waiting i)
    with inv assms(2) show ?thesis by (simp add: task_inv_def Let_def)
  next
    case Finished
    with inv show ?thesis by (simp add: task_inv_def Let_def)
  qed
qed

theorem parent_released_only_after_children_signalled_witness:
  "task_run
     \<lparr>slice = \<lparr>superblock = \<lparr>root_block = 1::nat\<rparr>,
               subtree_recency = (\<lambda>b. \<lparr>time = (if b = 1 then 10 else 5::nat)\<rparr>)\<rparr>,
      since_when = \<lparr>time = 8\<rparr>, shutdown_mode = False, held_blocks = [],
      num_pending_blocks = 0\<rparr>
     [1, 2] [Run, Run, Run, Signal 0, Run, Run, Run]
     (task_start
        \<lparr>slice = \<lparr>superblock = \<lparr>root_block = 1::nat\<rparr>,
                  subtree_recency = (\<lambda>b. \<lparr>time = (if b = 1 then 10 else 5::nat)\<rparr>)\<rparr>,
         since_when = \<lparr>time = 8\<rparr>, shutdown_mode = False, held_blocks = [],
         num_pending_blocks = 0\<rparr> (Some 0) [1, 2])
   = Some \<lparr>task_pc = Finished, task_recencies = [\<lparr>time = 10\<rparr>, \<lparr>time = 5\<rparr>],
            task_conds = [True, True], task_issued = [True, False], task_parent = None\<rparr> \<and>
   [True, True] ! 0 \<and> [True, True] ! 1 \<and> [True, False] ! 0"
proof -
  let ?S = "\<lparr>slice = \<lparr>superblock = \<lparr>root_block = 1::nat\<rparr>,
               subtree_recency = (\<lambda>b. \<lparr>time = (if b = 1 then 10 else 5::nat)\<rparr>)\<rparr>,
      since_when = \<lparr>time = 8\<rparr>, shutdown_mode = False, held_blocks = [],
      num_pending_blocks = 0\<rparr>"
  let ?T = "\<lparr>task_pc = Finished, task_recencies = [\<lparr>time = 10::nat\<rparr>, \<lparr>time = 5\<rparr>],
            task_conds = [True, True], task_issued = [True, False],
            task_parent = (None :: nat option)\<rparr>"
  have r: "task_run ?S [1, 2] [Run, Run, Run, Signal 0, Run, Run, Run]
             (task_start ?S (Some 0) [1, 2]) = Some ?T"
    by (simp add: task_start_def get_recency_timestamps_def buf_lock_release_def)
  have p: "task_parent ?T = None" by simp
  from parent_released_only_after_children_signalled [OF r p] r show ?thesis
    by (simp add: less_Suc_eq numeral_2_eq_2)
qed

text \<open>
  The hypothesis is met for every call: under the schedule in which \<^verbatim>\<open>acquire_node\<close>
  pulses the condition before it returns, the call runs to its end and gives the parent
  up. A call whose condition is not pulsed stays in its wait.
\<close>

lemma task_run_append:
  "task_run state block_ids (as @ bs) t =
     (case task_run state block_ids as t of
        None \<Rightarrow> None
      | Some t' \<Rightarrow> task_run state block_ids bs t')"
  by (induction as arbitrary: t) (simp_all split: option.splits)

lemma sync_spawn_phase:
  fixes state :: "('b, 't::linorder) backfill_state_t"
  assumes "k \<le> length block_ids"
  shows "\<exists>t. task_run state block_ids (sync_schedule state block_ids k)
                (task_start state (Some p) block_ids) = Some t \<and>
             task_pc t = Spawning k \<and> task_parent t = Some p \<and>
             task_recencies t = get_recency_timestamps state block_ids \<and>
             length (task_conds t) = length block_ids \<and>
             length (task_issued t) = length block_ids \<and>
             (\<forall>j<k. task_conds t ! j)"
  using assms
proof (induction k)
  case 0
  then show ?case by (simp add: sync_schedule_def task_start_def)
next
  case (Suc k)
  then obtain t where t:
    "task_run state block_ids (sync_schedule state block_ids k)
        (task_start state (Some p) block_ids) = Some t"
    "task_pc t = Spawning k" "task_parent t = Some p"
    "task_recencies t = get_recency_timestamps state block_ids"
    "length (task_conds t) = length block_ids"
    "length (task_issued t) = length block_ids"
    "\<forall>j<k. task_conds t ! j"
    by auto
  from Suc.prems have k: "k < length block_ids" by simp
  let ?f = "if time (subtree_recency (slice state) (block_ids ! k)) \<ge> time (since_when state)
            then [Run, Signal k] else [Run]"
  have sched: "sync_schedule state block_ids (Suc k) = sync_schedule state block_ids k @ ?f"
    by (simp add: sync_schedule_def)
  have "\<exists>t'. task_run state block_ids ?f t = Some t' \<and>
             task_pc t' = Spawning (Suc k) \<and> task_parent t' = Some p \<and>
             task_recencies t' = get_recency_timestamps state block_ids \<and>
             length (task_conds t') = length block_ids \<and>
             length (task_issued t') = length block_ids \<and>
             (\<forall>j<Suc k. task_conds t' ! j)"
    using t(2-7) k
    by (auto simp add: get_recency_timestamps_def nth_list_update less_Suc_eq)
  then show ?case
    unfolding sched task_run_append t(1) by simp
qed

lemma run_wait_phase:
  fixes state :: "('b, 't::linorder) backfill_state_t"
  assumes "task_pc t = Waiting i" and "i + d = length block_ids"
    and "\<forall>j<length block_ids. task_conds t ! j"
  shows "task_run state block_ids (replicate d Run) t = Some (t\<lparr>task_pc := Waiting (length block_ids)\<rparr>)"
  using assms
proof (induction d arbitrary: t i)
  case 0
  then show ?case by simp
next
  case (Suc d)
  have "task_step state block_ids Run t = Some (t\<lparr>task_pc := Waiting (i + 1)\<rparr>)"
    using Suc.prems by simp
  moreover have "task_run state block_ids (replicate d Run) (t\<lparr>task_pc := Waiting (i + 1)\<rparr>)
      = Some (t\<lparr>task_pc := Waiting (i + 1)\<rparr>\<lparr>task_pc := Waiting (length block_ids)\<rparr>)"
    using Suc.prems by (intro Suc.IH [of _ "i + 1"]) simp_all
  ultimately show ?case by simp
qed

lemma some_run_releases_the_parent:
  fixes state :: "('b, 't::linorder) backfill_state_t"
  shows "\<exists>t. task_run state block_ids
                (sync_schedule state block_ids (length block_ids)
                 @ [Run] @ replicate (length block_ids) Run @ [Run])
                (task_start state (Some p) block_ids) = Some t \<and>
             task_pc t = Finished \<and> task_parent t = None"
proof -
  obtain t where t:
    "task_run state block_ids (sync_schedule state block_ids (length block_ids))
        (task_start state (Some p) block_ids) = Some t"
    "task_pc t = Spawning (length block_ids)" "task_parent t = Some p"
    "\<forall>j<length block_ids. task_conds t ! j"
    using sync_spawn_phase [of "length block_ids" block_ids state p] by auto
  let ?t1 = "t\<lparr>task_pc := Waiting 0\<rparr>"
  have s1: "task_run state block_ids [Run] t = Some ?t1"
    using t(2) by simp
  have s2: "task_run state block_ids (replicate (length block_ids) Run) ?t1
        = Some (?t1\<lparr>task_pc := Waiting (length block_ids)\<rparr>)"
    using t(4) by (intro run_wait_phase [of _ 0]) simp_all
  have s3: "task_run state block_ids [Run] (?t1\<lparr>task_pc := Waiting (length block_ids)\<rparr>)
        = Some (?t1\<lparr>task_pc := Finished, task_parent := None\<rparr>)"
    using t(3) by (simp add: buf_lock_release_def)
  have "task_run state block_ids
                (sync_schedule state block_ids (length block_ids)
                 @ [Run] @ replicate (length block_ids) Run @ [Run])
                (task_start state (Some p) block_ids)
        = Some (?t1\<lparr>task_pc := Finished, task_parent := None\<rparr>)"
    by (simp only: task_run_append t(1) s1 s2 s3 option.case)
  then show ?thesis by simp
qed

lemma wait_on_unpulsed_cond_does_not_return:
  "task_run
     \<lparr>slice = \<lparr>superblock = \<lparr>root_block = 1::nat\<rparr>,
               subtree_recency = (\<lambda>b. \<lparr>time = (if b = 1 then 10 else 5::nat)\<rparr>)\<rparr>,
      since_when = \<lparr>time = 8\<rparr>, shutdown_mode = False, held_blocks = [],
      num_pending_blocks = 0\<rparr>
     [1, 2] [Run, Run, Run, Run]
     (task_start
        \<lparr>slice = \<lparr>superblock = \<lparr>root_block = 1::nat\<rparr>,
                  subtree_recency = (\<lambda>b. \<lparr>time = (if b = 1 then 10 else 5::nat)\<rparr>)\<rparr>,
         since_when = \<lparr>time = 8\<rparr>, shutdown_mode = False, held_blocks = [],
         num_pending_blocks = 0\<rparr> (Some 0) [1, 2]) = None"
  by (simp add: task_start_def get_recency_timestamps_def)

section \<open>The recency request\<close>

lemma spawn_phase_no_request:
  "filter is_recency_request (concat (map (\<lambda>i. snd (spawn_step state level block_ids
        recencies i [])) is)) = []"
  by (induction "is") (simp_all add: spawn_step_eq)

lemma waits_no_request: "filter is_recency_request (map Wait is) = []"
  by (induction "is") simp_all

lemma release_no_request: "filter is_recency_request (snd (buf_lock_release parent)) = []"
  by (simp add: buf_lock_release_def split: option.splits)

text \<open>
  C8. A call of \<^verbatim>\<open>subtrees_backfill\<close> on \<open>N\<close> children makes exactly one request for
  recencies, for the whole list of block ids; the answer has \<open>N\<close> timestamps, the
  \<open>i\<close>-th being the subtree recency of the \<open>i\<close>-th block id.
\<close>

theorem one_batched_recency_request:
  fixes state :: "('b, 't::linorder) backfill_state_t"
  shows "\<exists>parent' evs.
     subtrees_backfill state parent level block_ids = Some (parent', evs) \<and>
     filter is_recency_request evs = [Get_recency_timestamps block_ids] \<and>
     length (get_recency_timestamps state block_ids) = length block_ids \<and>
     (\<forall>i < length block_ids.
        get_recency_timestamps state block_ids ! i = subtree_recency (slice state) (block_ids ! i))"
  by (simp add: subtrees_backfill_eq spawn_phase_no_request waits_no_request
      release_no_request get_recency_timestamps_def)

theorem one_batched_recency_request_witness:
  "\<exists>parent' evs.
     subtrees_backfill
        \<lparr>slice = \<lparr>superblock = \<lparr>root_block = 1::nat\<rparr>,
                  subtree_recency = (\<lambda>b. \<lparr>time = (if b = 1 then 10 else 5::nat)\<rparr>)\<rparr>,
         since_when = \<lparr>time = 8\<rparr>, shutdown_mode = False, held_blocks = [],
         num_pending_blocks = 0\<rparr> (Some 0) 0 [1, 2] = Some (parent', evs) \<and>
     filter is_recency_request evs = [Get_recency_timestamps [1, 2]] \<and>
     get_recency_timestamps
        \<lparr>slice = \<lparr>superblock = \<lparr>root_block = 1::nat\<rparr>,
                  subtree_recency = (\<lambda>b. \<lparr>time = (if b = 1 then 10 else 5::nat)\<rparr>)\<rparr>,
         since_when = \<lparr>time = 8\<rparr>, shutdown_mode = False, held_blocks = [],
         num_pending_blocks = 0\<rparr> [1, 2] = [\<lparr>time = 10\<rparr>, \<lparr>time = 5\<rparr>]"
  using one_batched_recency_request
      [of "\<lparr>slice = \<lparr>superblock = \<lparr>root_block = 1::nat\<rparr>,
                  subtree_recency = (\<lambda>b. \<lparr>time = (if b = 1 then 10 else 5::nat)\<rparr>)\<rparr>,
         since_when = \<lparr>time = 8\<rparr>, shutdown_mode = False, held_blocks = [],
         num_pending_blocks = 0\<rparr>" "Some 0" 0 "[1, 2]"]
  by (auto simp add: get_recency_timestamps_def)

section \<open>The session\<close>

lemma subtrees_backfill_root:
  fixes state :: "('b, 't::linorder) backfill_state_t"
  shows "subtrees_backfill state (Some p) level [root] =
     Some (None,
           [Get_recency_timestamps [root]]
           @ (if time (since_when state) \<le> time (subtree_recency (slice state) root)
              then [Acquire_node root 0, Pulse 0, Release root] else [Pulse 0])
           @ [Wait 0, Release p])"
  by (simp add: subtrees_backfill_eq spawn_step_eq get_recency_timestamps_def buf_lock_release_def)

lemma spawn_btree_backfill_eq:
  fixes slice0 :: "('b, 't::linorder) btree_slice_t"
  shows "spawn_btree_backfill SUPERBLOCK_ID NULL_BLOCK_ID slice0 since_when0 =
     (if root_block (superblock slice0) = SUPERBLOCK_ID
      then Assertion_failed [Acquire SUPERBLOCK_ID]
      else if root_block (superblock slice0) = NULL_BLOCK_ID
      then Returned [Acquire SUPERBLOCK_ID, Release SUPERBLOCK_ID]
      else Returned
             ([Acquire SUPERBLOCK_ID, Get_recency_timestamps [root_block (superblock slice0)]]
              @ (if time since_when0 \<le> time (subtree_recency slice0 (root_block (superblock slice0)))
                 then [Acquire_node (root_block (superblock slice0)) 0, Pulse 0,
                       Release (root_block (superblock slice0))]
                 else [Pulse 0])
              @ [Wait 0, Release SUPERBLOCK_ID]))"
  by (simp add: spawn_btree_backfill_def Let_def subtrees_backfill_root new_backfill_state_def
      buf_lock_destructor_def buf_lock_release_def)

lemma session_never_suspended:
  fixes slice0 :: "('b, 't::linorder) btree_slice_t"
  shows "spawn_btree_backfill SUPERBLOCK_ID NULL_BLOCK_ID slice0 since_when0 \<noteq> Suspended evs"
  by (simp add: spawn_btree_backfill_eq)

text \<open>
  C4. On every path on which \<^verbatim>\<open>spawn_btree_backfill\<close> returns, the trace keeps the lock
  discipline and leaves nothing held: every release is of a block held at that moment,
  every block acquired has been released by the end, and acquisitions and releases are
  equal in number.
\<close>

theorem session_releases_what_it_acquired:
  fixes slice0 :: "('b, 't::linorder) btree_slice_t"
  assumes "spawn_btree_backfill SUPERBLOCK_ID NULL_BLOCK_ID slice0 since_when0 = Returned evs"
  shows "held_after evs [] = Some [] \<and> length (acquisitions evs) = length (releases evs)"
  using assms unfolding spawn_btree_backfill_eq
  by (auto simp add: acquisitions_def releases_def split: if_splits)

theorem session_releases_what_it_acquired_witness:
  "spawn_btree_backfill (0::nat) 4294967295
          \<lparr>superblock = \<lparr>root_block = 1\<rparr>, subtree_recency = (\<lambda>b. \<lparr>time = 10::nat\<rparr>)\<rparr>
          \<lparr>time = 8\<rparr>
     = Returned [Acquire 0, Get_recency_timestamps [1], Acquire_node 1 0, Pulse 0, Release 1,
              Wait 0, Release (0::nat)] \<and>
   held_after [Acquire 0, Get_recency_timestamps [1], Acquire_node 1 0, Pulse 0, Release 1,
              Wait 0, Release (0::nat)] [] = Some [] \<and>
   length (acquisitions [Acquire 0, Get_recency_timestamps [1], Acquire_node 1 0, Pulse 0, Release 1,
              Wait 0, Release (0::nat)]) =
   length (releases [Acquire 0, Get_recency_timestamps [1], Acquire_node 1 0, Pulse 0, Release 1,
              Wait 0, Release (0::nat)])"
proof -
  have r: "spawn_btree_backfill (0::nat) 4294967295
          \<lparr>superblock = \<lparr>root_block = 1\<rparr>, subtree_recency = (\<lambda>b. \<lparr>time = 10::nat\<rparr>)\<rparr>
          \<lparr>time = 8\<rparr>
        = Returned [Acquire 0, Get_recency_timestamps [1], Acquire_node 1 0, Pulse 0, Release 1,
              Wait 0, Release (0::nat)]"
    by (simp add: spawn_btree_backfill_eq)
  from r session_releases_what_it_acquired [OF r] show ?thesis
    by (simp only: simp_thms)
qed

text \<open>
  C5. On a tree whose superblock holds no root block id, the session acquires the
  superblock, releases it and returns: no request for recencies, no acquisition of a
  node, and (as on every path of the source) no call of the callback.
\<close>

theorem empty_tree_returns_at_once:
  fixes slice0 :: "('b, 't::linorder) btree_slice_t"
  assumes "root_block (superblock slice0) = NULL_BLOCK_ID"
    and "NULL_BLOCK_ID \<noteq> SUPERBLOCK_ID"
  shows "spawn_btree_backfill SUPERBLOCK_ID NULL_BLOCK_ID slice0 since_when0 =
           Returned [Acquire SUPERBLOCK_ID, Release SUPERBLOCK_ID]"
  using assms by (simp add: spawn_btree_backfill_eq)

theorem empty_tree_returns_at_once_witness:
  "spawn_btree_backfill (0::nat) 4294967295
          \<lparr>superblock = \<lparr>root_block = 4294967295\<rparr>, subtree_recency = (\<lambda>b. \<lparr>time = 10::nat\<rparr>)\<rparr>
          \<lparr>time = 8\<rparr>
   = Returned [Acquire 0, Release 0]"
  by (rule empty_tree_returns_at_once) simp_all

text \<open>
  C7 as stated fails: the lock on the superblock is the \<^verbatim>\<open>parent\<close> of the call of
  \<^verbatim>\<open>subtrees_backfill\<close> on the root. On a tree with root block 1 that is recent enough,
  the superblock (block 0) is still held when the recency of the root is requested, and it
  is released after the root has been acquired and released.
\<close>

theorem superblock_held_during_root_traversal_counterexample:
  "spawn_btree_backfill (0::nat) 4294967295
          \<lparr>superblock = \<lparr>root_block = 1\<rparr>, subtree_recency = (\<lambda>b. \<lparr>time = 10::nat\<rparr>)\<rparr>
          \<lparr>time = 8\<rparr>
     = Returned [Acquire 0, Get_recency_timestamps [1], Acquire_node 1 0, Pulse 0, Release 1,
               Wait 0, Release 0] \<and>
   \<not> precedes (Release 0) (Get_recency_timestamps [1])
        [Acquire 0, Get_recency_timestamps [1], Acquire_node 1 0, Pulse 0, Release 1,
               Wait 0, Release (0::nat)] \<and>
   precedes (Release 1) (Release 0)
        [Acquire 0, Get_recency_timestamps [1], Acquire_node 1 0, Pulse 0, Release 1,
               Wait 0, Release (0::nat)]"
  by (simp add: spawn_btree_backfill_eq precedes_def)

text \<open>
  C7, as amended. On a tree with a root, the lock on the superblock is held while the
  recency of the root is requested and while the root is pruned or handed to
  \<^verbatim>\<open>acquire_node\<close>; it is released once, as the last step of the session, after the
  condition of the root has been pulsed and waited for.
\<close>

theorem superblock_released_after_root_signalled:
  fixes slice0 :: "('b, 't::linorder) btree_slice_t"
  assumes "root_block (superblock slice0) = root"
    and "root \<noteq> SUPERBLOCK_ID" and "root \<noteq> NULL_BLOCK_ID"
  shows "\<exists>mid.
     spawn_btree_backfill SUPERBLOCK_ID NULL_BLOCK_ID slice0 since_when0 =
       Returned ([Acquire SUPERBLOCK_ID, Get_recency_timestamps [root]] @ mid
                 @ [Wait 0, Release SUPERBLOCK_ID]) \<and>
     Pulse 0 \<in> set mid \<and> Release SUPERBLOCK_ID \<notin> set mid \<and>
     (time since_when0 \<le> time (subtree_recency slice0 root) \<longrightarrow> Acquire_node root 0 \<in> set mid)"
  using assms by (auto simp add: spawn_btree_backfill_eq)

theorem superblock_released_after_root_signalled_witness:
  "\<exists>mid.
     spawn_btree_backfill (0::nat) 4294967295
          \<lparr>superblock = \<lparr>root_block = 1\<rparr>, subtree_recency = (\<lambda>b. \<lparr>time = 10::nat\<rparr>)\<rparr>
          \<lparr>time = 8\<rparr> =
       Returned ([Acquire 0, Get_recency_timestamps [1]] @ mid @ [Wait 0, Release 0]) \<and>
     Pulse 0 \<in> set mid \<and> Release 0 \<notin> set mid \<and> Acquire_node 1 0 \<in> set mid"
  using superblock_released_after_root_signalled
    [of "\<lparr>superblock = \<lparr>root_block = 1::nat\<rparr>,
           subtree_recency = (\<lambda>b. \<lparr>time = 10::nat\<rparr>)\<rparr>"
        1 0 4294967295 "\<lparr>time = 8\<rparr>"]
  by simp

section \<open>Controls the source does not have\<close>







end
